theory Spec2Isabelle
  imports Main "HOL-Library.Sublist"
begin

section \<open>The task registry\<close>

text \<open>
  \<^verbatim>\<open>CommandTask = collections.namedtuple("CommandTask", "index ctx task")\<close>
  (cog.py, line 64). The invocation context and the asyncio task are opaque to the cog,
  so they are type parameters; a named tuple compares field by field, which is the
  equality of the datatype.
\<close>

datatype ('c, 't) CommandTask = CommandTask (index: int) (ctx: 'c) (task: 't)

text \<open>
  The part of the cog object the registry uses: \<^verbatim>\<open>self.tasks\<close> (a deque, appended
  and popped at the right) and \<^verbatim>\<open>self.task_count\<close> (a Python int, unbounded). The
  operations are stated for any record that has these two fields, so that they apply to
  the whole cog as well.
\<close>

record ('c, 't) registry =
  tasks :: "('c, 't) CommandTask list"
  task_count :: int

text \<open>\<^verbatim>\<open>Jishaku.__init__\<close>: an empty deque and a count of zero.\<close>

definition init_registry :: "('c, 't) registry" where
  "init_registry = \<lparr>tasks = [], task_count = 0\<rparr>"

text \<open>
  \<^verbatim>\<open>Jishaku.submit\<close> is a context manager. Its code before the \<^verbatim>\<open>yield\<close>:
  \<^verbatim>\<open>
  self.task_count += 1
  cmdtask = CommandTask(self.task_count, ctx, asyncio.Task.current_task())
  self.tasks.append(cmdtask)
  \<close>
\<close>

definition submit_enter ::
  "'c \<Rightarrow> 't \<Rightarrow> ('c, 't, 'z) registry_scheme
     \<Rightarrow> ('c, 't) CommandTask \<times> ('c, 't, 'z) registry_scheme" where
  "submit_enter cx current_task s =
     (let n = task_count s + 1;
          cmdtask = CommandTask n cx current_task
      in (cmdtask, s\<lparr>task_count := n, tasks := tasks s @ [cmdtask]\<rparr>))"

text \<open>
  Its \<^verbatim>\<open>finally\<close> block, run however the \<^verbatim>\<open>with\<close> body is left:
  \<^verbatim>\<open>
  if cmdtask in self.tasks:
      self.tasks.remove(cmdtask)
  \<close>
  \<^verbatim>\<open>deque.remove\<close> deletes the first equal element, as \<^const>\<open>remove1\<close> does.
\<close>

definition submit_exit ::
  "('c, 't) CommandTask \<Rightarrow> ('c, 't, 'z) registry_scheme \<Rightarrow> ('c, 't, 'z) registry_scheme" where
  "submit_exit cmdtask s =
     (if cmdtask \<in> set (tasks s) then s\<lparr>tasks := remove1 cmdtask (tasks s)\<rparr> else s)"

text \<open>
  The ways a \<^verbatim>\<open>with self.submit(ctx):\<close> body can be left. The body is a state
  transformer that reports how it ended; \<open>submit\<close> runs the \<^verbatim>\<open>finally\<close> block
  on every one of them and passes the outcome on.
\<close>

datatype exit_path = Completed | Raised | Cancelled

definition submit ::
  "'c \<Rightarrow> 't
     \<Rightarrow> (('c, 't) CommandTask \<Rightarrow> ('c, 't, 'z) registry_scheme
          \<Rightarrow> exit_path \<times> ('c, 't, 'z) registry_scheme)
     \<Rightarrow> ('c, 't, 'z) registry_scheme \<Rightarrow> exit_path \<times> ('c, 't, 'z) registry_scheme" where
  "submit cx current_task body s =
     (case submit_enter cx current_task s of
        (cmdtask, s1) \<Rightarrow>
          (case body cmdtask s1 of
             (how, s2) \<Rightarrow> (how, submit_exit cmdtask s2)))"

text \<open>
  Sequences of submissions and releases, in any interleaving (invocations nest and
  overlap on the event loop). \<open>Release t\<close> is the \<^verbatim>\<open>finally\<close> block of the
  invocation that was handed \<open>t\<close>.
\<close>

datatype ('c, 't) reg_event = Submit 'c 't | Release "('c, 't) CommandTask"

fun reg_step ::
  "('c, 't, 'z) registry_scheme \<Rightarrow> ('c, 't) reg_event \<Rightarrow> ('c, 't, 'z) registry_scheme" where
  "reg_step s (Submit cx h) = snd (submit_enter cx h s)"
| "reg_step s (Release t) = submit_exit t s"

definition run_events ::
  "('c, 't) reg_event list \<Rightarrow> ('c, 't, 'z) registry_scheme \<Rightarrow> ('c, 't, 'z) registry_scheme" where
  "run_events evs s = foldl reg_step s evs"

text \<open>The indices handed out along a sequence of events, oldest first.\<close>

fun issued :: "('c, 't) reg_event list \<Rightarrow> ('c, 't, 'z) registry_scheme \<Rightarrow> int list" where
  "issued [] s = []"
| "issued (Submit cx h # evs) s =
     index (fst (submit_enter cx h s)) # issued evs (snd (submit_enter cx h s))"
| "issued (Release t # evs) s = issued evs (submit_exit t s)"

text \<open>
  The registry invariant: entries are in submission order with strictly increasing
  indices, and no entry carries an index beyond the counter.
\<close>

definition reg_inv :: "('c, 't, 'z) registry_scheme \<Rightarrow> bool" where
  "reg_inv s \<longleftrightarrow>
     sorted_wrt (<) (map index (tasks s)) \<and> list_all (\<lambda>t. index t \<le> task_count s) (tasks s)"

text \<open>
  \<^verbatim>\<open>jsk cancel\<close> (cog.py, lines 280-302). What the command sends is a value of
  \<open>message\<close>; the third reply is the f-string
  \<^verbatim>\<open>Cancelled task {task.index}: `{task.ctx.command.qualified_name}`, invoked at ...\<close>,
  kept as its two arguments. \<^verbatim>\<open>discord.utils.get(self.tasks, index=index)\<close>
  returns the first element whose attribute equals the value, or \<^verbatim>\<open>None\<close>:
  \<^const>\<open>find\<close>. A three-field named tuple is always truthy, so \<^verbatim>\<open>if task:\<close>
  tests only for \<^verbatim>\<open>None\<close>. The second component of the result is the handle on
  which \<^verbatim>\<open>task.task.cancel()\<close> was called, if any.
\<close>

datatype 'c message = Plain string | Cancelled_task int 'c

definition jsk_cancel ::
  "int \<Rightarrow> ('c, 't, 'z) registry_scheme
     \<Rightarrow> 'c message \<times> 't option \<times> ('c, 't, 'z) registry_scheme" where
  "jsk_cancel i s =
     (if tasks s = [] then (Plain ''No tasks to cancel.'', None, s)
      else if i = - 1 then
        (let t = last (tasks s)
         in (Cancelled_task (index t) (ctx t), Some (task t), s\<lparr>tasks := butlast (tasks s)\<rparr>))
      else
        (case find (\<lambda>t. index t = i) (tasks s) of
           Some t \<Rightarrow>
             (Cancelled_task (index t) (ctx t), Some (task t),
              s\<lparr>tasks := remove1 t (tasks s)\<rparr>)
         | None \<Rightarrow> (Plain ''Unknown task.'', None, s)))"


section \<open>The owner check\<close>

text \<open>
  \<^verbatim>\<open>Jishaku.cog_check\<close> (cog.py, lines 121-128):
  \<^verbatim>\<open>
  if not await ctx.bot.is_owner(ctx.author):
      raise commands.NotOwner("You must own this bot to use Jishaku.")
  return True
  \<close>
  The host's \<^verbatim>\<open>bot.is_owner\<close> is a parameter. A raise is the left injection.
\<close>

datatype command_error = NotOwner string | CheckFailure

definition cog_check :: "('u \<Rightarrow> bool) \<Rightarrow> 'u \<Rightarrow> command_error + bool" where
  "cog_check is_owner author =
     (if \<not> is_owner author then Inl (NotOwner ''You must own this bot to use Jishaku.'')
      else Inr True)"

text \<open>
  The host framework's dispatch of a command of the cog: it awaits the cog's check first
  and calls the command's body only when the check returned a true value; a check that
  raises ends the invocation with that error, and one that returns a false value ends it
  with a check failure. The body is any state transformer of the process.
\<close>

definition invoke_command ::
  "('u \<Rightarrow> bool) \<Rightarrow> 'u \<Rightarrow> ('s \<Rightarrow> 'r \<times> 's) \<Rightarrow> 's \<Rightarrow> (command_error + 'r) \<times> 's" where
  "invoke_command is_owner author body s =
     (case cog_check is_owner author of
        Inl e \<Rightarrow> (Inl e, s)
      | Inr ok \<Rightarrow>
          if ok then (case body s of (r, s') \<Rightarrow> (Inr r, s')) else (Inl CheckFailure, s))"


section \<open>File and URL display\<close>

text \<open>
  What building a \<^verbatim>\<open>WrappedFilePaginator\<close> can raise. The two commands catch
  \<^verbatim>\<open>UnicodeDecodeError\<close> and \<^verbatim>\<open>ValueError\<close>; anything else (an
  \<^verbatim>\<open>OSError\<close> of \<^verbatim>\<open>open\<close>, say) leaves the command as an exception.
\<close>

datatype file_error = UnicodeDecodeError | ValueError string | OSError string

text \<open>
  How a display command ends: one message sent with \<^verbatim>\<open>ctx.send\<close>, a paginator
  interface presented with \<^verbatim>\<open>interface.send_to(ctx)\<close>, or an exception that is not
  caught in the command.
\<close>

datatype 'p display = Sent string | Presented 'p | Propagated file_error

text \<open>
  What \<^verbatim>\<open>jsk cat\<close> asks of the file system: \<^verbatim>\<open>os.path.exists\<close>,
  \<^verbatim>\<open>os.path.isdir\<close>, \<^verbatim>\<open>os.path.getsize\<close>, and opening the file and building
  \<^verbatim>\<open>WrappedFilePaginator(file, line_span=line_span, max_size=1985)\<close>.
\<close>

record 'p file_system =
  path_exists :: "string \<Rightarrow> bool"
  path_isdir :: "string \<Rightarrow> bool"
  path_getsize :: "string \<Rightarrow> int"
  file_paginator :: "string \<Rightarrow> (nat \<times> nat) option \<Rightarrow> nat \<Rightarrow> file_error + 'p"

text \<open>
  \<^verbatim>\<open>jsk cat\<close> (cog.py, lines 467-509). The argument arrives as the result of the
  regular expression search: \<open>None\<close> when it did not match, else the path (group 1) and
  the line span built from groups 2 and 3.
\<close>

definition jsk_cat ::
  "'p file_system \<Rightarrow> (string \<times> (nat \<times> nat) option) option \<Rightarrow> 'p display" where
  "jsk_cat fs matched =
     (case matched of
        None \<Rightarrow> Sent ''Couldn't parse this input.''
      | Some (path, line_span) \<Rightarrow>
          if \<not> path_exists fs path \<or> path_isdir fs path then
            Sent (''`'' @ path @ ''`: No file by that name.'')
          else
            (let size = path_getsize fs path in
             if size \<le> 0 then
               Sent (''`'' @ path @ ''`: Cowardly refusing to read a file with no size stat''
                     @ '' (it may be empty, endless or inaccessible).'')
             else if size > 50 * (1024 ^ 2) then
               Sent (''`'' @ path @ ''`: Cowardly refusing to read a file >50MB.'')
             else
               (case file_paginator fs path line_span 1985 of
                  Inl UnicodeDecodeError \<Rightarrow>
                    Sent (''`'' @ path @ ''`: Couldn't determine the encoding of this file.'')
                | Inl (ValueError exc) \<Rightarrow>
                    Sent (''`'' @ path @ ''`: Couldn't read this file, '' @ exc)
                | Inl (OSError exc) \<Rightarrow> Propagated (OSError exc)
                | Inr paginator \<Rightarrow> Presented paginator)))"

text \<open>Python's \<^verbatim>\<open>str\<close> of a non-negative integer, for the status code.\<close>

fun str_nat :: "nat \<Rightarrow> string" where
  "str_nat n =
     (if n < 10 then [char_of (48 + n)] else str_nat (n div 10) @ [char_of (48 + n mod 10)])"

declare str_nat.simps [simp del]

text \<open>\<^verbatim>\<open>url.lstrip("<").rstrip(">")\<close>.\<close>

definition strip_maskers :: "string \<Rightarrow> string" where
  "strip_maskers url =
     rev (dropWhile (\<lambda>c. c = CHR ''>'') (rev (dropWhile (\<lambda>c. c = CHR ''<'') url)))"

text \<open>
  The HTTP response as the command reads it: the body bytes, the content type and the
  status code.
\<close>

record response =
  data :: "nat list"
  content_type :: string
  status :: nat

text \<open>
  \<^verbatim>\<open>jsk curl\<close> (cog.py, lines 511-543). \<open>get\<close> is the request of the HTTP client on
  the stripped URL; \<open>paginate\<close> builds
  \<^verbatim>\<open>WrappedFilePaginator(io.BytesIO(data), language_hints=hints, max_size=1985)\<close>.
\<close>

definition jsk_curl ::
  "(string \<Rightarrow> response) \<Rightarrow> (nat list \<Rightarrow> string \<times> string \<Rightarrow> nat \<Rightarrow> file_error + 'p) \<Rightarrow> string
     \<Rightarrow> 'p display" where
  "jsk_curl get paginate url0 =
     (let url = strip_maskers url0;
          resp = get url;
          hints = (content_type resp, url);
          code = status resp
      in if data resp = [] then
           Sent (''HTTP response was empty (status code '' @ str_nat code @ '').'')
         else
           (case paginate (data resp) hints 1985 of
              Inl UnicodeDecodeError \<Rightarrow>
                Sent (''Couldn't determine the encoding of the response. (status code ''
                      @ str_nat code @ '')'')
            | Inl (ValueError exc) \<Rightarrow>
                Sent (''Couldn't read response (status code '' @ str_nat code @ ''), '' @ exc)
            | Inl (OSError exc) \<Rightarrow> Propagated (OSError exc)
            | Inr paginator \<Rightarrow> Presented paginator))"


section \<open>Loading and unloading extensions\<close>











section \<open>Resolving extension names (modules.py)\<close>

















section \<open>The REPL commands\<close>

text \<open>
  A Python \<^verbatim>\<open>str\<close> is a list of code points, so that \<^verbatim>\<open>len\<close> is
  \<^const>\<open>length\<close> and the zero-width space U+200B is one element. \<open>ustr\<close> reads an
  ASCII literal.
\<close>

type_synonym pystr = "nat list"

definition ustr :: "string \<Rightarrow> pystr" where
  "ustr s = map of_char s"

definition zero_width_space :: pystr where
  "zero_width_space = [8203]"

text \<open>
  The code points \<^verbatim>\<open>str.strip()\<close> removes (those of \<^verbatim>\<open>str.isspace\<close>); U+200B
  is not one of them.
\<close>

definition py_isspace :: "nat \<Rightarrow> bool" where
  "py_isspace c \<longleftrightarrow>
     (9 \<le> c \<and> c \<le> 13) \<or> (28 \<le> c \<and> c \<le> 32) \<or> c = 133 \<or> c = 160 \<or> c = 5760
     \<or> (8192 \<le> c \<and> c \<le> 8202) \<or> c = 8232 \<or> c = 8233 \<or> c = 8239 \<or> c = 8287 \<or> c = 12288"

definition py_strip :: "pystr \<Rightarrow> pystr" where
  "py_strip s = rev (dropWhile py_isspace (rev (dropWhile py_isspace s)))"

text \<open>
  \<^verbatim>\<open>str.replace(old, new)\<close>: the occurrences of \<open>old\<close> are found from the left and
  do not overlap; an empty \<open>old\<close> matches before every code point and at the end.
\<close>

function replace_from :: "'a list \<Rightarrow> 'a list \<Rightarrow> 'a list \<Rightarrow> 'a list" where
  "replace_from old new [] = []"
| "replace_from old new (c # cs) =
     (if old \<noteq> [] \<and> prefix old (c # cs)
      then new @ replace_from old new (drop (length old) (c # cs))
      else c # replace_from old new cs)"
  by pat_completeness auto
termination
  by (relation "measure (\<lambda>(old, new, s). length s)") (auto simp: neq_Nil_conv)

declare replace_from.simps [simp del]

definition py_replace :: "'a list \<Rightarrow> 'a list \<Rightarrow> 'a list \<Rightarrow> 'a list" where
  "py_replace s old new =
     (if old = [] then new @ concat (map (\<lambda>c. c # new) s) else replace_from old new s)"

text \<open>
  The values a REPL run yields, by the cases \<^verbatim>\<open>jsk py\<close> distinguishes:
  \<^verbatim>\<open>None\<close>, a \<^verbatim>\<open>str\<close>, a \<^verbatim>\<open>discord.File\<close>, a
  \<^verbatim>\<open>discord.Embed\<close>, a \<^verbatim>\<open>PaginatorInterface\<close>, any other object. Objects are
  told apart by a number; \<^verbatim>\<open>repr\<close> is a parameter of the commands.
\<close>

datatype pyvalue =
  PyNone | PyStr pystr | PyFile nat | PyEmbed nat | PyInterface nat | PyObject nat

text \<open>
  Modelled from the spec: \<^verbatim>\<open>jishaku.repl.Scope\<close> is not among the sources. The spec
  has it as "a mutable mapping from identifier to value".
\<close>

type_synonym Scope = "string \<rightharpoonup> pyvalue"

text \<open>
  Modelled from the spec: the constructor \<^verbatim>\<open>Scope()\<close>, not among the sources; an
  ephemeral scope is "created fresh per invocation", with no binding in it.
\<close>

definition new_Scope :: Scope where
  "new_Scope = Map.empty"

text \<open>
  Modelled from the spec: \<^verbatim>\<open>Scope.clear_intersection\<close>, not among the sources. The
  spec has the retained scope "explicitly cleared of just the injected context variables
  after each run so only user-introduced bindings persist": the names bound in the
  injected dictionary are removed and every other binding is kept.
\<close>

definition clear_intersection :: "Scope \<Rightarrow> Scope \<Rightarrow> Scope" where
  "clear_intersection scope other_dict =
     (\<lambda>key. case other_dict key of None \<Rightarrow> scope key | Some value \<Rightarrow> None)"

text \<open>
  Modelled from the spec: \<^verbatim>\<open>jishaku.repl.AsyncCodeExecutor\<close> is not among the
  sources. The spec has it take the source text, a scope and a mapping of extra named
  bindings, run the statements against the scope, whose mutations persist, and produce a
  finite sequence of values, an exception ending the sequence with what was yielded so far
  still valid. A code block is therefore taken as what it denotes: from the scope and the
  injected bindings to the values yielded, the scope as the run leaves it (injected names
  may have washed up in it) and the way the run ended.
\<close>

record execution =
  yielded :: "pyvalue list"
  final_scope :: Scope
  ended :: exit_path

type_synonym program = "Scope \<Rightarrow> Scope \<Rightarrow> execution"

text \<open>
  The invocation context as the REPL commands read it: whether \<^verbatim>\<open>ctx.guild\<close> is
  set, the token \<^verbatim>\<open>bot.http.token\<close>, and the dictionary
  \<^verbatim>\<open>get_var_dict_from_ctx(ctx, prefix)\<close> of injected bindings for a prefix (that
  function, of \<^verbatim>\<open>jishaku.repl\<close>, is not among the sources and is taken as given).
\<close>

record Context =
  guild :: bool
  token :: pystr
  var_dict :: "string \<Rightarrow> Scope"

text \<open>
  The cog object: the registry fields, and \<^verbatim>\<open>self._scope\<close> (here \<open>retained\<close>),
  \<^verbatim>\<open>self.retain\<close>, \<^verbatim>\<open>self.last_result\<close>, \<^verbatim>\<open>self.SCOPE_PREFIX\<close>.
\<close>

record 't Jishaku = "(Context, 't) registry" +
  retained :: Scope
  retain :: bool
  last_result :: pyvalue
  SCOPE_PREFIX :: string

text \<open>
  \<^verbatim>\<open>Jishaku.__init__(bot, scope)\<close>, with \<^verbatim>\<open>JISHAKU_RETAIN\<close> from the
  environment.
\<close>

definition init_Jishaku :: "bool \<Rightarrow> string \<Rightarrow> 't Jishaku" where
  "init_Jishaku JISHAKU_RETAIN scope_prefix =
     \<lparr>tasks = [], task_count = 0, retained = new_Scope, retain = JISHAKU_RETAIN,
      last_result = PyNone, SCOPE_PREFIX = scope_prefix\<rparr>"

text \<open>
  The property \<^verbatim>\<open>Jishaku.scope\<close> (cog.py, lines 86-97):
  \<^verbatim>\<open>
  if self.retain:
      return self._scope
  return Scope()
  \<close>
\<close>

definition scope :: "'t Jishaku \<Rightarrow> Scope" where
  "scope self = (if retain self then retained self else new_Scope)"

text \<open>\<^verbatim>\<open>jsk retain\<close> (cog.py, lines 573-599); the result is the message sent.\<close>

definition jsk_retain :: "bool option \<Rightarrow> 't Jishaku \<Rightarrow> string \<times> 't Jishaku" where
  "jsk_retain toggle self =
     (case toggle of
        None \<Rightarrow>
          if retain self then (''Variable retention is set to ON.'', self)
          else (''Variable retention is set to OFF.'', self)
      | Some True \<Rightarrow>
          if retain self then (''Variable retention is already set to ON.'', self)
          else (''Variable retention is ON. Future REPL sessions will retain their scope.'',
                self\<lparr>retain := True, retained := new_Scope\<rparr>)
      | Some False \<Rightarrow>
          if \<not> retain self then (''Variable retention is already set to OFF.'', self)
          else (''Variable retention is OFF. Future REPL sessions will dispose their scope when done.'',
                self\<lparr>retain := False\<rparr>))"

text \<open>
  What \<^verbatim>\<open>jsk py\<close> sends for one yielded value (cog.py, lines 617-646); \<open>None\<close>
  is the \<^verbatim>\<open>continue\<close> of a \<^verbatim>\<open>None\<close> result. A text longer than 2000 goes
  into a paginator of its own.
\<close>

datatype sent =
  Sent_file nat | Sent_embed nat | Sent_interface nat | Sent_paginated pystr | Sent_text pystr

definition no_token :: pystr where
  "no_token = ustr ''[NO_TOKEN]''"

definition send_text :: "Context \<Rightarrow> pystr \<Rightarrow> sent" where
  "send_text cx result =
     (if length result > 2000 then Sent_paginated result
      else (let result = (if py_strip result = [] then zero_width_space else result)
            in Sent_text (if guild cx then py_replace result (token cx) no_token else result)))"

fun send_result :: "(pyvalue \<Rightarrow> pystr) \<Rightarrow> Context \<Rightarrow> pyvalue \<Rightarrow> sent option" where
  "send_result repr cx PyNone = None"
| "send_result repr cx (PyFile f) = Some (Sent_file f)"
| "send_result repr cx (PyEmbed e) = Some (Sent_embed e)"
| "send_result repr cx (PyInterface i) = Some (Sent_interface i)"
| "send_result repr cx (PyStr s) = Some (send_text cx s)"
| "send_result repr cx (PyObject x) = Some (send_text cx (repr (PyObject x)))"

text \<open>
  \<^verbatim>\<open>self.last_result = result\<close> for every result that is not \<^verbatim>\<open>None\<close>: the
  last of them, if there is one.
\<close>

definition last_of :: "pyvalue \<Rightarrow> pyvalue list \<Rightarrow> pyvalue" where
  "last_of before results = (if results = [] then before else last results)"

text \<open>
  The injected bindings of an invocation, as both REPL commands build them:
  \<^verbatim>\<open>
  arg_dict = get_var_dict_from_ctx(ctx, self.SCOPE_PREFIX)
  arg_dict["_"] = self.last_result
  \<close>
\<close>

definition arg_dict_of :: "Context \<Rightarrow> 't Jishaku \<Rightarrow> Scope" where
  "arg_dict_of cx self = (var_dict cx (SCOPE_PREFIX self))(''_'' \<mapsto> last_result self)"

text \<open>
  A bot token as the host issues it: longer than eight code points and free of square
  brackets (it is made of base64 segments joined by dots).
\<close>

definition token_shaped :: "pystr \<Rightarrow> bool" where
  "token_shaped tok \<longleftrightarrow> 8 < length tok \<and> 91 \<notin> set tok \<and> 93 \<notin> set tok"

text \<open>
  \<^verbatim>\<open>jsk py\<close> (cog.py, lines 601-648). The command is one step of the cog: the
  injected dictionary, \<^verbatim>\<open>scope = self.scope\<close>, the run inside
  \<^verbatim>\<open>with self.submit(ctx)\<close>, and the \<^verbatim>\<open>finally\<close> clause
  \<^verbatim>\<open>scope.clear_intersection(arg_dict)\<close>, which runs however the run ended. The scope
  object is \<^verbatim>\<open>self._scope\<close> itself when retention is on, so what the run and the
  cleanup do to it is then the new \<open>retained\<close>; otherwise the object is dropped. The
  result is the messages sent, how the run ended, the scope object as the cleanup left
  it, and the cog.
\<close>

definition jsk_python ::
  "(pyvalue \<Rightarrow> pystr) \<Rightarrow> Context \<Rightarrow> 't \<Rightarrow> program \<Rightarrow> 't Jishaku
     \<Rightarrow> sent list \<times> exit_path \<times> Scope \<times> 't Jishaku" where
  "jsk_python repr cx current_task argument self =
     (let arg_dict = arg_dict_of cx self;
          scope_used = scope self
      in case submit_enter cx current_task self of
           (cmdtask, self1) \<Rightarrow>
             (let executor = argument scope_used arg_dict;
                  results = filter (\<lambda>result. result \<noteq> PyNone) (yielded executor);
                  self2 = self1\<lparr>last_result := last_of (last_result self1) results\<rparr>;
                  self3 = submit_exit cmdtask self2;
                  cleared = clear_intersection (final_scope executor) arg_dict
              in (List.map_filter (send_result repr cx) results, ended executor, cleared,
                  if retain self then self3\<lparr>retained := cleared\<rparr> else self3)))"

text \<open>
  \<^verbatim>\<open>jsk py_inspect\<close> (cog.py, lines 650-681): every result, \<^verbatim>\<open>None\<close> too,
  becomes the last result and is presented in an interface under a header, the
  \<^verbatim>\<open>repr\<close> with doubled backticks broken up and the token replaced, cut to 485.
\<close>

definition inspect_header :: "(pyvalue \<Rightarrow> pystr) \<Rightarrow> Context \<Rightarrow> pyvalue \<Rightarrow> pystr" where
  "inspect_header repr cx result =
     (let header = py_replace (py_replace (repr result) (ustr ''``'') ([96] @ zero_width_space @ [96]))
                     (token cx) (ustr ''[token omitted]'')
      in if length header > 485 then take 482 header @ ustr ''...'' else header)"

definition jsk_python_inspect ::
  "(pyvalue \<Rightarrow> pystr) \<Rightarrow> Context \<Rightarrow> 't \<Rightarrow> program \<Rightarrow> 't Jishaku
     \<Rightarrow> pystr list \<times> exit_path \<times> Scope \<times> 't Jishaku" where
  "jsk_python_inspect repr cx current_task argument self =
     (let arg_dict = arg_dict_of cx self;
          scope_used = scope self
      in case submit_enter cx current_task self of
           (cmdtask, self1) \<Rightarrow>
             (let executor = argument scope_used arg_dict;
                  results = yielded executor;
                  self2 = self1\<lparr>last_result := last_of (last_result self1) results\<rparr>;
                  self3 = submit_exit cmdtask self2;
                  cleared = clear_intersection (final_scope executor) arg_dict
              in (map (inspect_header repr cx) results, ended executor, cleared,
                  if retain self then self3\<lparr>retained := cleared\<rparr> else self3)))"

text \<open>
  The commands that touch the retained scope, in sequence: what each one sends, and what
  the scope property would hand to an invocation made next.
\<close>

datatype 't repl_command =
  Retain "bool option"
| Py Context 't program
| Py_inspect Context 't program

datatype repl_output = Said string | Replied "sent list" | Inspected "pystr list"

fun repl_step ::
  "(pyvalue \<Rightarrow> pystr) \<Rightarrow> 't repl_command \<Rightarrow> 't Jishaku \<Rightarrow> repl_output \<times> 't Jishaku" where
  "repl_step repr (Retain toggle) self =
     (case jsk_retain toggle self of (said, self') \<Rightarrow> (Said said, self'))"
| "repl_step repr (Py cx h argument) self =
     (case jsk_python repr cx h argument self of
        (sends, how, used, self') \<Rightarrow> (Replied sends, self'))"
| "repl_step repr (Py_inspect cx h argument) self =
     (case jsk_python_inspect repr cx h argument self of
        (headers, how, used, self') \<Rightarrow> (Inspected headers, self'))"

fun repl_run ::
  "(pyvalue \<Rightarrow> pystr) \<Rightarrow> 't repl_command list \<Rightarrow> 't Jishaku \<Rightarrow> repl_output list \<times> 't Jishaku" where
  "repl_run repr [] self = ([], self)"
| "repl_run repr (c # cs) self =
     (case repl_step repr c self of
        (out, self1) \<Rightarrow> (case repl_run repr cs self1 of (outs, self2) \<Rightarrow> (out # outs, self2)))"


section \<open>Paginators\<close>




text \<open>
  Modelled from the spec: \<^verbatim>\<open>jishaku.paginators\<close> is not among the sources. The spec
  has the state of a paginator as "an ordered sequence of pre-rendered pages", with the
  page in progress; a page is the list of its lines, and a line counts with its line
  break.
\<close>

record paginator =
  pages :: "string list list"
  current_page :: "string list"
  count :: nat









section \<open>Properties of the task registry\<close>

lemma sorted_wrt_remove1: "sorted_wrt P xs \<Longrightarrow> sorted_wrt P (remove1 x xs)"
  by (induction xs) (auto dest: notin_set_remove1)

lemma distinct_index: "reg_inv s \<Longrightarrow> distinct (map index (tasks s))"
  unfolding reg_inv_def using strict_sorted_iff by blast

lemma distinct_tasks: "reg_inv s \<Longrightarrow> distinct (tasks s)"
  using distinct_index distinct_map by blast

lemma reg_inv_enter: "reg_inv s \<Longrightarrow> reg_inv (snd (submit_enter cx h s))"
  by (auto simp: reg_inv_def submit_enter_def Let_def sorted_wrt_append list_all_iff)

lemma reg_inv_remove1:
  assumes "reg_inv s" shows "reg_inv (s\<lparr>tasks := remove1 t (tasks s)\<rparr>)"
proof -
  have "sorted_wrt (<) (map index (remove1 t (tasks s)))"
    using assms by (simp add: sorted_wrt_map sorted_wrt_remove1 reg_inv_def)
  moreover have "list_all (\<lambda>u. index u \<le> task_count s) (remove1 t (tasks s))"
    using assms by (auto simp: reg_inv_def list_all_iff dest: notin_set_remove1)
  ultimately show ?thesis by (simp add: reg_inv_def)
qed

lemma reg_inv_exit: "reg_inv s \<Longrightarrow> reg_inv (submit_exit t s)"
  by (simp add: submit_exit_def reg_inv_remove1)

lemma reg_inv_step: "reg_inv s \<Longrightarrow> reg_inv (reg_step s ev)"
  by (cases ev) (simp_all add: reg_inv_enter reg_inv_exit)

lemma reg_inv_run: "reg_inv s \<Longrightarrow> reg_inv (run_events evs s)"
  unfolding run_events_def
  by (induction evs arbitrary: s) (simp_all add: reg_inv_step)

lemma task_count_step: "task_count s \<le> task_count (reg_step s ev)"
  by (cases ev) (simp_all add: submit_enter_def submit_exit_def Let_def)

lemma task_count_run: "task_count s \<le> task_count (run_events evs s)"
  unfolding run_events_def
proof (induction evs arbitrary: s)
  case Nil show ?case by simp
next
  case (Cons ev evs)
  have "task_count s \<le> task_count (reg_step s ev)" by (rule task_count_step)
  also have "\<dots> \<le> task_count (foldl reg_step (reg_step s ev) evs)" by (rule Cons.IH)
  finally show ?case by simp
qed

lemma issued_fresh:
  "sorted_wrt (<) (issued evs s) \<and> list_all (\<lambda>i. task_count s < i) (issued evs s)"
proof (induction evs s rule: issued.induct)
  case (1 s) show ?case by simp
next
  case (2 cx h evs s)
  then show ?case
    by (auto simp: submit_enter_def Let_def list_all_iff)
next
  case (3 t evs s)
  have "task_count (submit_exit t s) = task_count s" by (simp add: submit_exit_def)
  with 3 show ?case by simp
qed

lemma issued_append:
  "issued (evs @ evs') s = issued evs s @ issued evs' (run_events evs s)"
  unfolding run_events_def
  by (induction evs s rule: issued.induct) simp_all

lemma absent_step:
  "t \<notin> set (tasks s) \<Longrightarrow> index t \<le> task_count s \<Longrightarrow>
     t \<notin> set (tasks (reg_step s ev)) \<and> index t \<le> task_count (reg_step s ev)"
  by (cases ev) (auto simp: submit_enter_def submit_exit_def Let_def dest: notin_set_remove1)

lemma absent_run:
  "t \<notin> set (tasks s) \<Longrightarrow> index t \<le> task_count s \<Longrightarrow> t \<notin> set (tasks (run_events evs s))"
  unfolding run_events_def
  by (induction evs arbitrary: s) (simp_all add: absent_step)

lemma present_step:
  "t \<in> set (tasks s) \<Longrightarrow> ev \<noteq> Release t \<Longrightarrow> t \<in> set (tasks (reg_step s ev))"
  by (cases ev) (auto simp: submit_enter_def submit_exit_def Let_def)

lemma present_run:
  "t \<in> set (tasks s) \<Longrightarrow> Release t \<notin> set evs \<Longrightarrow> t \<in> set (tasks (run_events evs s))"
  unfolding run_events_def
  by (induction evs arbitrary: s) (auto simp: present_step)

lemma count_one: "distinct xs \<Longrightarrow> x \<in> set xs \<Longrightarrow> count_list xs x = 1"
  by (induction xs) auto

lemma released_run:
  assumes "reg_inv s" and "Release t \<in> set evs" and "index t \<le> task_count s"
  shows "t \<notin> set (tasks (run_events evs s))"
proof -
  from assms(2) obtain a b where evs: "evs = a @ Release t # b"
    by (auto simp: in_set_conv_decomp)
  let ?s1 = "run_events a s"
  have inv1: "reg_inv ?s1" using assms(1) by (rule reg_inv_run)
  have le1: "index t \<le> task_count ?s1" using assms(3) task_count_run [of s a] by simp
  have "t \<notin> set (tasks (submit_exit t ?s1))"
    using distinct_tasks [OF inv1] by (simp add: submit_exit_def)
  moreover have "index t \<le> task_count (submit_exit t ?s1)"
    using le1 by (simp add: submit_exit_def)
  ultimately have "t \<notin> set (tasks (run_events b (submit_exit t ?s1)))"
    by (rule absent_run)
  then show ?thesis by (simp add: evs run_events_def)
qed


lemma find_index_unique:
  "distinct (map index xs) \<Longrightarrow> t \<in> set xs \<Longrightarrow> find (\<lambda>u. index u = index t) xs = Some t"
  by (induction xs) (auto simp: image_iff)

lemma find_index_none: "i \<notin> index ` set xs \<Longrightarrow> find (\<lambda>u. index u = i) xs = None"
  by (induction xs) auto

lemma sorted_last_max:
  "sorted_wrt (<) (map f xs) \<Longrightarrow> xs \<noteq> [] \<Longrightarrow> list_all (\<lambda>u. f u \<le> (f (last xs) :: int)) xs"
  by (induction xs) (auto simp: list_all_iff less_imp_le)

lemma last_notin_butlast: "distinct xs \<Longrightarrow> xs \<noteq> [] \<Longrightarrow> last xs \<notin> set (butlast xs)"
  by (metis append_butlast_last_id distinct_butlast distinct_append disjoint_iff list.set_intros(1) not_distinct_conv_prefix)

lemma sorted_wrt_butlast_keep: "sorted_wrt P xs \<Longrightarrow> sorted_wrt P (butlast xs)"
  by (induction xs) (auto dest: in_set_butlastD)

text \<open>
  Claim C3. From any registry that satisfies the invariant (the fresh cog's does), after
  any sequence \<open>evs\<close> of submissions and releases: the invariant still holds; a
  further submission yields a task \<open>t\<close> whose index is strictly greater than the
  counter the sequence started from, than every index issued along the sequence and than
  every index still in the registry, so the indices issued are strictly increasing and none
  is reused; while its release has not run, \<open>t\<close> occurs exactly once in the registry,
  whatever other submissions and releases \<open>evs'\<close> happen; once its release has run it is
  absent; and \<open>submit\<close> removes it whichever way the body ends (completed, raised or
  cancelled), passing the body's outcome on.
\<close>

theorem registry_submit_release:
  assumes inv: "reg_inv s"
    and enter: "submit_enter cx h (run_events evs s) = (t, s1)"
  shows "reg_inv (run_events evs s) \<and> reg_inv s1
    \<and> sorted_wrt (<) (issued (evs @ [Submit cx h]) s)
    \<and> last (issued (evs @ [Submit cx h]) s) = index t
    \<and> list_all (\<lambda>i. i < index t) (issued evs s)
    \<and> list_all (\<lambda>u. index u < index t) (tasks (run_events evs s))
    \<and> task_count s < index t
    \<and> (Release t \<notin> set evs' \<longrightarrow> count_list (tasks (run_events evs' s1)) t = 1)
    \<and> (Release t \<in> set evs' \<longrightarrow> t \<notin> set (tasks (run_events evs' s1)))
    \<and> (reg_inv (snd (body t s1)) \<longrightarrow>
          fst (submit cx h body (run_events evs s)) = fst (body t s1) \<and>
          t \<notin> set (tasks (snd (submit cx h body (run_events evs s)))))"
proof -
  let ?s0 = "run_events evs s"
  have inv0: "reg_inv ?s0" using inv by (rule reg_inv_run)
  have s1: "s1 = snd (submit_enter cx h ?s0)" and t: "t = fst (submit_enter cx h ?s0)"
    using enter by simp_all
  have inv1: "reg_inv s1" unfolding s1 using inv0 by (rule reg_inv_enter)
  have idx: "index t = task_count ?s0 + 1" and cnt1: "task_count s1 = index t"
    and mem1: "t \<in> set (tasks s1)"
    using enter by (auto simp: submit_enter_def Let_def)
  have iss: "issued (evs @ [Submit cx h]) s = issued evs s @ [index t]"
    by (simp add: issued_append t)
  have srt: "sorted_wrt (<) (issued (evs @ [Submit cx h]) s)"
    by (rule conjunct1 [OF issued_fresh])
  have before: "list_all (\<lambda>i. i < index t) (issued evs s)"
    using srt unfolding iss by (simp add: sorted_wrt_append list_all_iff)
  have live: "list_all (\<lambda>u. index u < index t) (tasks ?s0)"
    using inv0 idx by (auto simp: reg_inv_def list_all_iff)
  have base: "task_count s < index t"
    using task_count_run [of s evs] idx by simp
  have inflight: "count_list (tasks (run_events evs' s1)) t = 1" if "Release t \<notin> set evs'"
  proof (rule count_one)
    show "distinct (tasks (run_events evs' s1))"
      using inv1 by (intro distinct_tasks reg_inv_run)
    show "t \<in> set (tasks (run_events evs' s1))"
      using mem1 that by (rule present_run)
  qed
  have released: "t \<notin> set (tasks (run_events evs' s1))" if "Release t \<in> set evs'"
    using inv1 that by (rule released_run) (simp add: cnt1)
  have finally_block:
    "fst (submit cx h body ?s0) = fst (body t s1) \<and> t \<notin> set (tasks (snd (submit cx h body ?s0)))"
    if b: "reg_inv (snd (body t s1))"
  proof -
    have sub: "submit cx h body ?s0 = (fst (body t s1), submit_exit t (snd (body t s1)))"
      by (simp add: submit_def enter split: prod.splits)
    have "t \<notin> set (tasks (submit_exit t (snd (body t s1))))"
      using distinct_tasks [OF b] by (simp add: submit_exit_def)
    then show ?thesis by (simp add: sub)
  qed
  show ?thesis
    using inv0 inv1 srt before live base inflight released finally_block
    by (simp add: iss)
qed

text \<open>
  Claim C4. With a non-empty registry that satisfies the invariant: index \<open>-1\<close> cancels
  the handle of the last entry and removes it, and that entry carries the greatest index
  present, so it is the most recently submitted task still active; another index that
  some entry \<open>t\<close> carries cancels the handle of \<open>t\<close> and removes \<open>t\<close>, the only
  entry with that index; an index no entry carries cancels nothing, leaves the registry
  as it was and is answered with the plain message \<open>Unknown task.\<close>, not an error. The
  invariant holds afterwards in every case.
\<close>

theorem cancel_registry:
  assumes inv: "reg_inv s" and ne: "tasks s \<noteq> []"
  shows "jsk_cancel (- 1) s =
        (Cancelled_task (index (last (tasks s))) (ctx (last (tasks s))),
         Some (task (last (tasks s))), s\<lparr>tasks := butlast (tasks s)\<rparr>)
    \<and> list_all (\<lambda>u. index u \<le> index (last (tasks s))) (tasks s)
    \<and> last (tasks s) \<notin> set (butlast (tasks s))
    \<and> (i \<noteq> - 1 \<and> t \<in> set (tasks s) \<and> index t = i \<longrightarrow>
          jsk_cancel i s =
            (Cancelled_task i (ctx t), Some (task t), s\<lparr>tasks := remove1 t (tasks s)\<rparr>)
          \<and> set (remove1 t (tasks s)) = set (tasks s) - {t}
          \<and> list_all (\<lambda>u. index u = i \<longrightarrow> u = t) (tasks s))
    \<and> (i \<noteq> - 1 \<and> i \<notin> index ` set (tasks s) \<longrightarrow>
          jsk_cancel i s = (Plain ''Unknown task.'', None, s))
    \<and> reg_inv (snd (snd (jsk_cancel i s)))"
proof -
  have d: "distinct (map index (tasks s))" using inv by (rule distinct_index)
  have dt: "distinct (tasks s)" using inv by (rule distinct_tasks)
  have c1: "jsk_cancel (- 1) s =
        (Cancelled_task (index (last (tasks s))) (ctx (last (tasks s))),
         Some (task (last (tasks s))), s\<lparr>tasks := butlast (tasks s)\<rparr>)"
    using ne by (simp add: jsk_cancel_def Let_def)
  have c2: "list_all (\<lambda>u. index u \<le> index (last (tasks s))) (tasks s)"
    using inv ne by (simp add: reg_inv_def sorted_last_max)
  have c3: "last (tasks s) \<notin> set (butlast (tasks s))"
    using dt ne by (rule last_notin_butlast)
  have c4: "jsk_cancel i s =
            (Cancelled_task i (ctx t), Some (task t), s\<lparr>tasks := remove1 t (tasks s)\<rparr>)
          \<and> set (remove1 t (tasks s)) = set (tasks s) - {t}
          \<and> list_all (\<lambda>u. index u = i \<longrightarrow> u = t) (tasks s)"
    if h: "i \<noteq> - 1 \<and> t \<in> set (tasks s) \<and> index t = i"
  proof -
    have f: "find (\<lambda>u. index u = i) (tasks s) = Some t"
      using find_index_unique [OF d, of t] h by simp
    have u: "list_all (\<lambda>u. index u = i \<longrightarrow> u = t) (tasks s)"
      using d h by (auto simp: list_all_iff distinct_map inj_on_def)
    show ?thesis using h ne f u dt by (simp add: jsk_cancel_def)
  qed
  have c5: "jsk_cancel i s = (Plain ''Unknown task.'', None, s)"
    if "i \<noteq> - 1 \<and> i \<notin> index ` set (tasks s)"
    using that ne by (simp add: jsk_cancel_def find_index_none)
  have bl: "reg_inv (s\<lparr>tasks := butlast (tasks s)\<rparr>)"
    using inv
    by (auto simp: reg_inv_def list_all_iff map_butlast sorted_wrt_butlast_keep
        dest: in_set_butlastD)
  have c6: "reg_inv (snd (snd (jsk_cancel i s)))"
    using inv bl by (auto simp: jsk_cancel_def Let_def reg_inv_remove1 split: option.splits)
  show ?thesis using c1 c2 c3 c4 c5 c6 by blast
qed


theorem registry_submit_release_witness:
  "reg_inv (init_registry :: (string, nat) registry)
   \<and> submit_enter ''c'' 3
         (run_events [Submit ''a'' 1, Submit ''b'' 2, Release (CommandTask 1 ''a'' 1)] init_registry)
       = (CommandTask 3 ''c'' 3,
          \<lparr>tasks = [CommandTask 2 ''b'' 2, CommandTask 3 ''c'' 3], task_count = 3\<rparr>)
   \<and> issued [Submit ''a'' 1, Submit ''b'' 2, Release (CommandTask 1 ''a'' 1), Submit ''c'' (3::nat)]
         (init_registry :: (string, nat) registry) = [1, 2, 3]
   \<and> count_list
         (tasks (run_events [Submit ''d'' 4, Release (CommandTask 2 ''b'' 2)]
            \<lparr>tasks = [CommandTask 2 ''b'' 2, CommandTask 3 ''c'' 3], task_count = 3\<rparr>))
         (CommandTask 3 ''c'' (3::nat)) = 1
   \<and> CommandTask 3 ''c'' (3::nat) \<notin>
         set (tasks (run_events [Submit ''d'' 4, Release (CommandTask 3 ''c'' 3)]
            \<lparr>tasks = [CommandTask 2 ''b'' 2, CommandTask 3 ''c'' 3], task_count = 3\<rparr>))
   \<and> submit ''c'' (3::nat) (\<lambda>t s1. (Raised, s1))
         (run_events [Submit ''a'' 1, Submit ''b'' 2, Release (CommandTask 1 ''a'' 1)] init_registry)
       = (Raised, \<lparr>tasks = [CommandTask 2 ''b'' 2], task_count = 3\<rparr>)"
proof -
  let ?evs = "[Submit ''a'' 1, Submit ''b'' 2, Release (CommandTask 1 ''a'' (1::nat))]"
  let ?t = "CommandTask 3 ''c'' (3::nat)"
  let ?s1 = "\<lparr>tasks = [CommandTask 2 ''b'' 2, ?t], task_count = 3\<rparr>"
  have inv: "reg_inv (init_registry :: (string, nat) registry)"
    by (simp add: reg_inv_def init_registry_def)
  have enter: "submit_enter ''c'' 3 (run_events ?evs init_registry) = (?t, ?s1)"
    by (simp add: run_events_def submit_enter_def submit_exit_def init_registry_def Let_def)
  show ?thesis
    using registry_submit_release [OF inv enter,
        of "[Submit ''d'' 4, Release (CommandTask 2 ''b'' 2)]" "\<lambda>t s1. (Raised, s1)"]
      registry_submit_release [OF inv enter,
        of "[Submit ''d'' 4, Release ?t]" "\<lambda>t s1. (Raised, s1)"]
    by (simp add: run_events_def submit_enter_def submit_exit_def submit_def init_registry_def
        reg_inv_def Let_def)
qed

theorem cancel_registry_witness:
  "reg_inv \<lparr>tasks = [CommandTask 2 ''b'' (20::nat), CommandTask 5 ''e'' 50], task_count = 7\<rparr>
   \<and> jsk_cancel (- 1)
        \<lparr>tasks = [CommandTask 2 ''b'' (20::nat), CommandTask 5 ''e'' 50], task_count = 7\<rparr>
       = (Cancelled_task 5 ''e'', Some 50, \<lparr>tasks = [CommandTask 2 ''b'' 20], task_count = 7\<rparr>)
   \<and> jsk_cancel 2
        \<lparr>tasks = [CommandTask 2 ''b'' (20::nat), CommandTask 5 ''e'' 50], task_count = 7\<rparr>
       = (Cancelled_task 2 ''b'', Some 20, \<lparr>tasks = [CommandTask 5 ''e'' 50], task_count = 7\<rparr>)
   \<and> jsk_cancel 3
        \<lparr>tasks = [CommandTask 2 ''b'' (20::nat), CommandTask 5 ''e'' 50], task_count = 7\<rparr>
       = (Plain ''Unknown task.'', None,
          \<lparr>tasks = [CommandTask 2 ''b'' 20, CommandTask 5 ''e'' 50], task_count = 7\<rparr>)"
proof -
  let ?s = "\<lparr>tasks = [CommandTask 2 ''b'' (20::nat), CommandTask 5 ''e'' 50], task_count = 7\<rparr>"
  have inv: "reg_inv ?s" by (simp add: reg_inv_def)
  have ne: "tasks ?s \<noteq> []" by simp
  show ?thesis
    using cancel_registry [OF inv ne, of 2 "CommandTask 2 ''b'' 20"]
      cancel_registry [OF inv ne, of 3 "CommandTask 2 ''b'' 20"] inv
    by simp
qed


section \<open>Properties of the commands\<close>

text \<open>
  Claim C8. For every command body and every invoker: if the invoker is not an owner, the
  cog check raises \<open>NotOwner\<close> and the dispatch ends with that error with the process
  state untouched, so the body has not run; if the invoker is an owner, the check returns
  \<open>True\<close> and the body runs. Hence a dispatch that returns the body's result was made
  by an owner.
\<close>

theorem owner_gate:
  "(\<not> is_owner author \<longrightarrow>
      cog_check is_owner author = Inl (NotOwner ''You must own this bot to use Jishaku.'')
      \<and> invoke_command is_owner author body s
          = (Inl (NotOwner ''You must own this bot to use Jishaku.''), s))
   \<and> (is_owner author \<longrightarrow>
      cog_check is_owner author = Inr True
      \<and> invoke_command is_owner author body s = (Inr (fst (body s)), snd (body s)))
   \<and> (\<forall>r. fst (invoke_command is_owner author body s) = Inr r \<longrightarrow> is_owner author)"
  by (simp add: cog_check_def invoke_command_def split: prod.splits)

theorem owner_gate_witness:
  "\<not> (\<lambda>u. u = ''owner'') ''guest''
   \<and> invoke_command (\<lambda>u. u = ''owner'') ''guest'' (\<lambda>n::nat. (''ran'', n + 1)) 0
       = (Inl (NotOwner ''You must own this bot to use Jishaku.''), 0)
   \<and> invoke_command (\<lambda>u. u = ''owner'') ''owner'' (\<lambda>n::nat. (''ran'', n + 1)) 0
       = (Inr ''ran'', 1)"
  using owner_gate [of "\<lambda>u. u = ''owner''" "''guest''" "\<lambda>n::nat. (''ran'', n + 1)" 0]
    owner_gate [of "\<lambda>u. u = ''owner''" "''owner''" "\<lambda>n::nat. (''ran'', n + 1)" 0]
  by simp

text \<open>
  Claim C7. \<^verbatim>\<open>jsk cat\<close> on an existing path that is not a directory answers a size
  of zero or less, a size above 50 MB (52428800 bytes), and a file whose encoding cannot
  be determined each with its own message; \<^verbatim>\<open>jsk curl\<close> answers an empty response
  body and an undecodable response each with its own message carrying the status code.
  In each of these conditions, whatever else holds, the command's single result is not a
  presented paginator interface; the commands are not recursive, so nothing is retried.
\<close>

theorem display_refusals:
  "(path_exists fs path \<and> \<not> path_isdir fs path \<longrightarrow>
      (path_getsize fs path \<le> 0 \<longrightarrow>
         jsk_cat fs (Some (path, span)) =
           Sent (''`'' @ path @ ''`: Cowardly refusing to read a file with no size stat''
                 @ '' (it may be empty, endless or inaccessible).''))
      \<and> (path_getsize fs path > 52428800 \<longrightarrow>
         jsk_cat fs (Some (path, span)) =
           Sent (''`'' @ path @ ''`: Cowardly refusing to read a file >50MB.''))
      \<and> (0 < path_getsize fs path \<and> path_getsize fs path \<le> 52428800
           \<and> file_paginator fs path span 1985 = Inl UnicodeDecodeError \<longrightarrow>
         jsk_cat fs (Some (path, span)) =
           Sent (''`'' @ path @ ''`: Couldn't determine the encoding of this file.'')))
   \<and> (path_getsize fs path \<le> 0 \<or> path_getsize fs path > 52428800
        \<or> file_paginator fs path span 1985 = Inl UnicodeDecodeError \<longrightarrow>
      (\<forall>p. jsk_cat fs (Some (path, span)) \<noteq> Presented p))
   \<and> (data (get (strip_maskers url)) = [] \<longrightarrow>
      jsk_curl get paginate url =
        Sent (''HTTP response was empty (status code ''
              @ str_nat (status (get (strip_maskers url))) @ '').''))
   \<and> (data (get (strip_maskers url)) \<noteq> []
        \<and> paginate (data (get (strip_maskers url)))
             (content_type (get (strip_maskers url)), strip_maskers url) 1985
           = Inl UnicodeDecodeError \<longrightarrow>
      jsk_curl get paginate url =
        Sent (''Couldn't determine the encoding of the response. (status code ''
              @ str_nat (status (get (strip_maskers url))) @ '')''))
   \<and> (data (get (strip_maskers url)) = []
        \<or> paginate (data (get (strip_maskers url)))
             (content_type (get (strip_maskers url)), strip_maskers url) 1985
           = Inl UnicodeDecodeError \<longrightarrow>
      (\<forall>p. jsk_curl get paginate url \<noteq> Presented p))"
proof -
  have cat: "jsk_cat fs (Some (path, span)) =
      (if \<not> path_exists fs path \<or> path_isdir fs path then
            Sent (''`'' @ path @ ''`: No file by that name.'')
       else if path_getsize fs path \<le> 0 then
               Sent (''`'' @ path @ ''`: Cowardly refusing to read a file with no size stat''
                     @ '' (it may be empty, endless or inaccessible).'')
       else if path_getsize fs path > 52428800 then
               Sent (''`'' @ path @ ''`: Cowardly refusing to read a file >50MB.'')
       else (case file_paginator fs path span 1985 of
                  Inl UnicodeDecodeError \<Rightarrow>
                    Sent (''`'' @ path @ ''`: Couldn't determine the encoding of this file.'')
                | Inl (ValueError exc) \<Rightarrow>
                    Sent (''`'' @ path @ ''`: Couldn't read this file, '' @ exc)
                | Inl (OSError exc) \<Rightarrow> Propagated (OSError exc)
                | Inr paginator \<Rightarrow> Presented paginator))"
    by (simp add: jsk_cat_def Let_def)
  have curl: "jsk_curl get paginate url =
      (if data (get (strip_maskers url)) = [] then
           Sent (''HTTP response was empty (status code ''
              @ str_nat (status (get (strip_maskers url))) @ '').'')
       else (case paginate (data (get (strip_maskers url)))
             (content_type (get (strip_maskers url)), strip_maskers url) 1985 of
              Inl UnicodeDecodeError \<Rightarrow>
                Sent (''Couldn't determine the encoding of the response. (status code ''
                      @ str_nat (status (get (strip_maskers url))) @ '')'')
            | Inl (ValueError exc) \<Rightarrow>
                Sent (''Couldn't read response (status code ''
                      @ str_nat (status (get (strip_maskers url))) @ ''), '' @ exc)
            | Inl (OSError exc) \<Rightarrow> Propagated (OSError exc)
            | Inr paginator \<Rightarrow> Presented paginator))"
    by (simp add: jsk_curl_def Let_def)
  show ?thesis
    unfolding cat curl by auto
qed

theorem display_refusals_witness:
  "jsk_cat \<lparr>path_exists = (\<lambda>p. True), path_isdir = (\<lambda>p. False),
       path_getsize = (\<lambda>p. if p = ''empty.txt'' then 0 else if p = ''big.bin'' then 60000000 else 10),
       file_paginator = (\<lambda>p span n. Inl UnicodeDecodeError :: file_error + unit)\<rparr>
       (Some (''empty.txt'', None))
     = Sent ''`empty.txt`: Cowardly refusing to read a file with no size stat (it may be empty, endless or inaccessible).''
   \<and> jsk_cat \<lparr>path_exists = (\<lambda>p. True), path_isdir = (\<lambda>p. False),
       path_getsize = (\<lambda>p. if p = ''empty.txt'' then 0 else if p = ''big.bin'' then 60000000 else 10),
       file_paginator = (\<lambda>p span n. Inl UnicodeDecodeError :: file_error + unit)\<rparr>
       (Some (''big.bin'', None))
     = Sent ''`big.bin`: Cowardly refusing to read a file >50MB.''
   \<and> jsk_cat \<lparr>path_exists = (\<lambda>p. True), path_isdir = (\<lambda>p. False),
       path_getsize = (\<lambda>p. if p = ''empty.txt'' then 0 else if p = ''big.bin'' then 60000000 else 10),
       file_paginator = (\<lambda>p span n. Inl UnicodeDecodeError :: file_error + unit)\<rparr>
       (Some (''odd.dat'', Some (3, 7)))
     = Sent ''`odd.dat`: Couldn't determine the encoding of this file.''
   \<and> jsk_curl (\<lambda>u. \<lparr>data = [], content_type = ''text/plain'', status = 204\<rparr>)
        (\<lambda>d h n. Inr ()) ''<http://x/a>''
     = Sent ''HTTP response was empty (status code 204).''
   \<and> jsk_curl (\<lambda>u. \<lparr>data = [255, 254], content_type = ''text/plain'', status = 200\<rparr>)
        (\<lambda>d h n. Inl UnicodeDecodeError :: file_error + unit) ''<http://x/a>''
     = Sent ''Couldn't determine the encoding of the response. (status code 200)''"
proof -
  let ?fs = "\<lparr>path_exists = (\<lambda>p. True), path_isdir = (\<lambda>p. False),
       path_getsize = (\<lambda>p. if p = ''empty.txt'' then 0 else if p = ''big.bin'' then 60000000 else 10),
       file_paginator = (\<lambda>p span n. Inl UnicodeDecodeError :: file_error + unit)\<rparr>"
  let ?g1 = "\<lambda>u::string. \<lparr>data = [], content_type = ''text/plain'', status = 204\<rparr>"
  let ?g2 = "\<lambda>u::string. \<lparr>data = [255, 254], content_type = ''text/plain'', status = 200\<rparr>"
  have n1: "str_nat 204 = ''204''" by code_simp
  have n2: "str_nat 200 = ''200''" by code_simp
  have a: "jsk_cat ?fs (Some (''empty.txt'', None))
      = Sent ''`empty.txt`: Cowardly refusing to read a file with no size stat (it may be empty, endless or inaccessible).''"
    and d: "jsk_curl ?g1 (\<lambda>d h n. Inr ()) ''<http://x/a>''
      = Sent ''HTTP response was empty (status code 204).''"
    using display_refusals [of ?fs "''empty.txt''" None ?g1 "''<http://x/a>''" "\<lambda>d h n. Inr ()"]
    by (simp_all add: n1 jsk_cat_def jsk_curl_def strip_maskers_def)
  have b: "jsk_cat ?fs (Some (''big.bin'', None))
      = Sent ''`big.bin`: Cowardly refusing to read a file >50MB.''"
    using display_refusals [of ?fs "''big.bin''" None ?g2 "''<http://x/a>''"
        "\<lambda>d h n. Inl UnicodeDecodeError"]
    by (simp add: jsk_cat_def)
  have c: "jsk_cat ?fs (Some (''odd.dat'', Some (3, 7)))
      = Sent ''`odd.dat`: Couldn't determine the encoding of this file.''"
    and e: "jsk_curl ?g2 (\<lambda>d h n. Inl UnicodeDecodeError :: file_error + unit) ''<http://x/a>''
      = Sent ''Couldn't determine the encoding of the response. (status code 200)''"
    using display_refusals [of ?fs "''odd.dat''" "Some (3, 7)" ?g2 "''<http://x/a>''"
        "\<lambda>d h n. Inl UnicodeDecodeError"]
    by (simp_all add: n2 jsk_cat_def jsk_curl_def strip_maskers_def)
  from a b c d e show ?thesis by (intro conjI)
qed











section \<open>Properties of the extension resolver\<close>





















section \<open>Properties of the REPL commands\<close>

lemma all_dropWhile: "(\<forall>x\<in>set (dropWhile P s). P x) \<longleftrightarrow> (\<forall>x\<in>set s. P x)"
proof
  assume h: "\<forall>x\<in>set (dropWhile P s). P x"
  have "dropWhile P s = []"
  proof (rule ccontr)
    assume ne: "dropWhile P s \<noteq> []"
    then have "\<not> P (hd (dropWhile P s))" by (rule hd_dropWhile)
    moreover have "hd (dropWhile P s) \<in> set (dropWhile P s)" using ne by simp
    ultimately show False using h by blast
  qed
  then show "\<forall>x\<in>set s. P x" by (simp add: dropWhile_eq_Nil_conv)
next
  assume "\<forall>x\<in>set s. P x"
  then show "\<forall>x\<in>set (dropWhile P s). P x" by (meson set_dropWhileD)
qed

lemma py_strip_empty: "py_strip s = [] \<longleftrightarrow> list_all py_isspace s"
  by (simp add: py_strip_def list_all_iff dropWhile_eq_Nil_conv all_dropWhile)

lemma replace_from_Nil: "replace_from old new [] = []"
  by (simp add: replace_from.simps)

lemma replace_from_match:
  "old \<noteq> [] \<Longrightarrow> prefix old (c # cs) \<Longrightarrow>
     replace_from old new (c # cs) = new @ replace_from old new (drop (length old) (c # cs))"
  by (subst replace_from.simps) simp

lemma replace_from_skip:
  "\<not> (old \<noteq> [] \<and> prefix old (c # cs)) \<Longrightarrow>
     replace_from old new (c # cs) = c # replace_from old new cs"
  by (subst replace_from.simps) auto

lemma prefix_replace_from:
  "new \<noteq> [] \<Longrightarrow> hd new \<notin> set p \<Longrightarrow> prefix p (replace_from old new s) \<Longrightarrow> prefix p s"
proof (induction s arbitrary: p)
  case Nil
  then show ?case by (simp add: replace_from_Nil)
next
  case (Cons c cs)
  show ?case
  proof (cases "old \<noteq> [] \<and> prefix old (c # cs)")
    case True
    then have "prefix p (new @ replace_from old new (drop (length old) (c # cs)))"
      using Cons.prems(3) by (simp add: replace_from_match)
    moreover obtain a rest where "new = a # rest" using Cons.prems(1) by (cases new) auto
    ultimately have "p = []" using Cons.prems(2) by (cases p) auto
    then show ?thesis by simp
  next
    case False
    have pre: "prefix p (c # replace_from old new cs)"
      using Cons.prems(3) unfolding replace_from_skip [OF False] .
    show ?thesis
    proof (cases p)
      case Nil then show ?thesis by simp
    next
      case (Cons x p')
      with pre have x: "x = c" and p': "prefix p' (replace_from old new cs)" by simp_all
      have "hd new \<notin> set p'" using Cons.prems(2) Cons by simp
      with Cons.prems(1) p' have "prefix p' cs" using Cons.IH [of p'] by blast
      then show ?thesis using Cons x by simp
    qed
  qed
qed

lemma sublist_across:
  assumes "x \<notin> set t" and "sublist t (a @ x # b)"
  shows "sublist t a \<or> sublist t b"
proof -
  from assms(2) consider "sublist t a" | "sublist t (x # b)"
    | t1 t2 where "t = t1 @ t2" "suffix t1 a" "prefix t2 (x # b)"
    unfolding sublist_append by blast
  then show ?thesis
  proof cases
    case 1 then show ?thesis by simp
  next
    case 2
    then have "prefix t (x # b) \<or> sublist t b" by (simp add: sublist_Cons_right)
    moreover have "t = []" if "prefix t (x # b)"
      using that assms(1) by (cases t) auto
    ultimately show ?thesis by auto
  next
    case 3
    have "t2 = []" using 3(3) assms(1) 3(1) by (cases t2) auto
    then have "suffix t a" using 3 by simp
    then show ?thesis by (simp add: suffix_imp_sublist)
  qed
qed

lemma replace_from_no_occurrence:
  assumes tok: "tok \<noteq> []" and new: "new = a # mid @ [z]"
    and a: "a \<notin> set tok" and z: "z \<notin> set tok" and mid: "\<not> sublist tok mid"
  shows "\<not> sublist tok (replace_from tok new s)"
proof (induction "length s" arbitrary: s rule: less_induct)
  case less
  show ?case
  proof (cases s)
    case Nil
    then show ?thesis using tok by (simp add: replace_from_Nil)
  next
    case (Cons c cs)
    show ?thesis
    proof (cases "prefix tok (c # cs)")
      case True
      let ?rest = "replace_from tok new (drop (length tok) (c # cs))"
      have out: "replace_from tok new s = [] @ a # (mid @ z # ?rest)"
        unfolding Cons replace_from_match [OF tok True] by (simp add: new)
      have "length (drop (length tok) (c # cs)) < length s"
        using tok Cons by (cases tok) auto
      then have ih: "\<not> sublist tok ?rest" by (rule less)
      show ?thesis
      proof
        assume "sublist tok (replace_from tok new s)"
        then have "sublist tok [] \<or> sublist tok (mid @ z # ?rest)"
          unfolding out using sublist_across [OF a] by blast
        then have "sublist tok (mid @ z # ?rest)" using tok by simp
        then have "sublist tok mid \<or> sublist tok ?rest"
          using sublist_across [OF z] by blast
        then show False using mid ih by blast
      qed
    next
      case False
      have out: "replace_from tok new s = c # replace_from tok new cs"
        unfolding Cons by (rule replace_from_skip) (simp add: False)
      have ih: "\<not> sublist tok (replace_from tok new cs)"
        by (rule less) (simp add: Cons)
      show ?thesis
      proof
        assume "sublist tok (replace_from tok new s)"
        then have "prefix tok (replace_from tok new s)"
          using ih unfolding out by (simp add: sublist_Cons_right)
        moreover have "new \<noteq> []" and "hd new \<notin> set tok" using new a by simp_all
        ultimately have "prefix tok s" using prefix_replace_from [of new tok tok s] by blast
        then show False using False Cons by simp
      qed
    qed
  qed
qed

lemma no_token_shape: "no_token = 91 # ustr ''NO_TOKEN'' @ [93]"
  by (simp add: no_token_def ustr_def)

lemma redacted:
  assumes "token_shaped tok"
  shows "\<not> sublist tok (py_replace s tok no_token)"
proof -
  have ne: "tok \<noteq> []" using assms by (auto simp: token_shaped_def)
  have "\<not> sublist tok (ustr ''NO_TOKEN'')"
  proof
    assume "sublist tok (ustr ''NO_TOKEN'')"
    then have "length tok \<le> length (ustr ''NO_TOKEN'')" by (rule sublist_length_le)
    then show False using assms by (simp add: token_shaped_def ustr_def)
  qed
  moreover have "91 \<notin> set tok" and "93 \<notin> set tok"
    using assms by (simp_all add: token_shaped_def)
  ultimately have "\<not> sublist tok (replace_from tok no_token s)"
    using replace_from_no_occurrence [OF ne no_token_shape] by blast
  then show ?thesis using ne by (simp add: py_replace_def)
qed

lemma replace_absent: "old \<noteq> [] \<Longrightarrow> length s < length old \<Longrightarrow> py_replace s old new = s"
proof (induction s)
  case Nil then show ?case by (simp add: py_replace_def replace_from_Nil)
next
  case (Cons c cs)
  have "\<not> prefix old (c # cs)" using Cons.prems(2) by (auto dest: prefix_length_le)
  moreover have "py_replace cs old new = cs" using Cons by simp
  ultimately show ?case using Cons.prems(1) by (simp add: py_replace_def replace_from_skip)
qed

text \<open>
  Claim C10. For a plain-text result of \<^verbatim>\<open>jsk py\<close> (a \<^verbatim>\<open>str\<close>, or the
  \<^verbatim>\<open>repr\<close> of another object) of length at most 2000: in a guild what is sent is
  the result with \<^verbatim>\<open>str.replace\<close> putting \<^verbatim>\<open>[NO_TOKEN]\<close> for the token, and
  for a token of the host's shape the token does not occur in what is sent; outside a
  guild the result is sent as it is; an empty or whitespace-only result is sent as the
  single code point U+200B (in a guild, for a token that is neither empty nor that code
  point itself).
\<close>

theorem plain_text_reply:
  assumes short: "length result \<le> 2000"
  shows "(guild cx \<and> \<not> list_all py_isspace result \<longrightarrow>
            send_text cx result = Sent_text (py_replace result (token cx) no_token))
    \<and> (\<not> guild cx \<and> \<not> list_all py_isspace result \<longrightarrow> send_text cx result = Sent_text result)
    \<and> (\<not> guild cx \<and> list_all py_isspace result \<longrightarrow>
            send_text cx result = Sent_text zero_width_space)
    \<and> (guild cx \<and> list_all py_isspace result \<and> token cx \<noteq> [] \<and> token cx \<noteq> zero_width_space
          \<longrightarrow> send_text cx result = Sent_text zero_width_space)
    \<and> (guild cx \<and> token_shaped (token cx) \<longrightarrow>
          \<not> sublist (token cx)
               (case send_text cx result of Sent_text text \<Rightarrow> text | other \<Rightarrow> []))
    \<and> send_result repr cx (PyStr result) = Some (send_text cx result)
    \<and> (repr (PyObject x) = result \<longrightarrow>
          send_result repr cx (PyObject x) = Some (send_text cx result))"
proof -
  let ?shown = "if py_strip result = [] then zero_width_space else result"
  have st: "send_text cx result =
      Sent_text (if guild cx then py_replace ?shown (token cx) no_token else ?shown)"
    using short by (simp add: send_text_def Let_def)
  have zw: "py_replace zero_width_space tok no_token = zero_width_space"
    if "tok \<noteq> []" and "tok \<noteq> zero_width_space" for tok
  proof -
    have "\<not> prefix tok [8203]" using that by (cases tok) (auto simp: zero_width_space_def)
    then show ?thesis
      using that(1)
      by (simp add: py_replace_def zero_width_space_def replace_from_skip replace_from_Nil)
  qed
  have c1: "send_text cx result = Sent_text (py_replace result (token cx) no_token)"
    if "guild cx \<and> \<not> list_all py_isspace result"
    using that by (simp add: st py_strip_empty)
  have c2: "send_text cx result = Sent_text result"
    if "\<not> guild cx \<and> \<not> list_all py_isspace result"
    using that by (simp add: st py_strip_empty)
  have c3: "send_text cx result = Sent_text zero_width_space"
    if "\<not> guild cx \<and> list_all py_isspace result"
    using that by (simp add: st py_strip_empty)
  have c4: "send_text cx result = Sent_text zero_width_space"
    if "guild cx \<and> list_all py_isspace result \<and> token cx \<noteq> [] \<and> token cx \<noteq> zero_width_space"
    using that by (simp add: st py_strip_empty zw)
  have c5: "\<not> sublist (token cx)
               (case send_text cx result of Sent_text text \<Rightarrow> text | other \<Rightarrow> [])"
    if "guild cx \<and> token_shaped (token cx)"
    using that redacted [of "token cx" ?shown] by (simp add: st)
  have c6: "send_result repr cx (PyStr result) = Some (send_text cx result)" by simp
  have c7: "send_result repr cx (PyObject x) = Some (send_text cx result)"
    if "repr (PyObject x) = result"
    using that by simp
  show ?thesis using c1 c2 c3 c4 c5 c6 c7 by blast
qed

theorem plain_text_reply_witness:
  "length (ustr ''key: mfa.abcdefgh!'') \<le> 2000
   \<and> send_text \<lparr>guild = True, token = ustr ''mfa.abcdefgh'', var_dict = (\<lambda>p. Map.empty)\<rparr>
        (ustr ''key: mfa.abcdefgh!'')
      = Sent_text (ustr ''key: [NO_TOKEN]!'')
   \<and> send_text \<lparr>guild = False, token = ustr ''mfa.abcdefgh'', var_dict = (\<lambda>p. Map.empty)\<rparr>
        (ustr ''key: mfa.abcdefgh!'')
      = Sent_text (ustr ''key: mfa.abcdefgh!'')
   \<and> send_text \<lparr>guild = True, token = ustr ''mfa.abcdefgh'', var_dict = (\<lambda>p. Map.empty)\<rparr>
        (ustr ''  '')
      = Sent_text [8203]
   \<and> send_text \<lparr>guild = False, token = ustr ''mfa.abcdefgh'', var_dict = (\<lambda>p. Map.empty)\<rparr> []
      = Sent_text [8203]"
proof -
  let ?g = "\<lparr>guild = True, token = ustr ''mfa.abcdefgh'', var_dict = (\<lambda>p. Map.empty)\<rparr>"
  let ?d = "\<lparr>guild = False, token = ustr ''mfa.abcdefgh'', var_dict = (\<lambda>p. Map.empty)\<rparr>"
  have len: "length (ustr ''key: mfa.abcdefgh!'') \<le> 2000" by (simp add: ustr_def)
  have rep: "py_replace (ustr ''key: mfa.abcdefgh!'') (ustr ''mfa.abcdefgh'') no_token
      = ustr ''key: [NO_TOKEN]!''"
    by code_simp
  have ns: "\<not> list_all py_isspace (ustr ''key: mfa.abcdefgh!'')"
    by (simp add: ustr_def py_isspace_def)
  have a: "send_text ?g (ustr ''key: mfa.abcdefgh!'') = Sent_text (ustr ''key: [NO_TOKEN]!'')"
    using plain_text_reply [OF len, of ?g "\<lambda>v. []" 0] ns by (simp add: rep)
  have b: "send_text ?d (ustr ''key: mfa.abcdefgh!'') = Sent_text (ustr ''key: mfa.abcdefgh!'')"
    using plain_text_reply [OF len, of ?d "\<lambda>v. []" 0] ns by simp
  have c: "send_text ?g (ustr ''  '') = Sent_text [8203]"
    using plain_text_reply [of "ustr ''  ''" ?g "\<lambda>v. []" 0]
    by (simp add: ustr_def py_isspace_def zero_width_space_def)
  have d: "send_text ?d [] = Sent_text [8203]"
    using plain_text_reply [of "[]" ?d "\<lambda>v. []" 0]
    by (simp add: zero_width_space_def)
  from len a b c d show ?thesis by (intro conjI)
qed


section \<open>Properties of the scope\<close>

lemma jsk_python_effect:
  "jsk_python repr cx h argument self =
     (List.map_filter (send_result repr cx)
        (filter (\<lambda>result. result \<noteq> PyNone)
           (yielded (argument (scope self) (arg_dict_of cx self)))),
      ended (argument (scope self) (arg_dict_of cx self)),
      clear_intersection (final_scope (argument (scope self) (arg_dict_of cx self)))
        (arg_dict_of cx self),
      snd (snd (snd (jsk_python repr cx h argument self))))
   \<and> retain (snd (snd (snd (jsk_python repr cx h argument self)))) = retain self
   \<and> SCOPE_PREFIX (snd (snd (snd (jsk_python repr cx h argument self)))) = SCOPE_PREFIX self
   \<and> retained (snd (snd (snd (jsk_python repr cx h argument self)))) =
       (if retain self
        then clear_intersection (final_scope (argument (scope self) (arg_dict_of cx self)))
               (arg_dict_of cx self)
        else retained self)"
  by (simp add: jsk_python_def submit_enter_def submit_exit_def Let_def)

lemma jsk_python_inspect_effect:
  "jsk_python_inspect repr cx h argument self =
     (map (inspect_header repr cx) (yielded (argument (scope self) (arg_dict_of cx self))),
      ended (argument (scope self) (arg_dict_of cx self)),
      clear_intersection (final_scope (argument (scope self) (arg_dict_of cx self)))
        (arg_dict_of cx self),
      snd (snd (snd (jsk_python_inspect repr cx h argument self))))
   \<and> retain (snd (snd (snd (jsk_python_inspect repr cx h argument self)))) = retain self
   \<and> SCOPE_PREFIX (snd (snd (snd (jsk_python_inspect repr cx h argument self)))) = SCOPE_PREFIX self
   \<and> retained (snd (snd (snd (jsk_python_inspect repr cx h argument self)))) =
       (if retain self
        then clear_intersection (final_scope (argument (scope self) (arg_dict_of cx self)))
               (arg_dict_of cx self)
        else retained self)"
  by (simp add: jsk_python_inspect_def submit_enter_def submit_exit_def Let_def)

lemma clear_intersection_frame:
  "dom (clear_intersection sc ad) = dom sc - dom ad
   \<and> (\<forall>k. k \<in> dom ad \<longrightarrow> clear_intersection sc ad k = None)
   \<and> (\<forall>k. k \<notin> dom ad \<longrightarrow> clear_intersection sc ad k = sc k)"
  by (auto simp: clear_intersection_def dom_def split: option.splits)

text \<open>
  Claim C2. After \<^verbatim>\<open>jsk py\<close> or \<^verbatim>\<open>jsk py_inspect\<close>, however the run ended
  (completed, raised or cancelled), the scope object the run used holds no binding for
  any key of the injected dictionary (the context bindings and the last-result binding
  \<^verbatim>\<open>_\<close>) and holds every other binding exactly as the run left it; with retention
  on, that is the retained scope from then on.
\<close>

theorem cleanup_frame:
  assumes "jsk_python repr cx h argument self = (sends, how, used, self')
           \<or> jsk_python_inspect repr cx h argument self = (headers, how, used, self')"
  shows "how = ended (argument (scope self) (arg_dict_of cx self))
    \<and> dom (arg_dict_of cx self) = insert ''_'' (dom (var_dict cx (SCOPE_PREFIX self)))
    \<and> dom used = dom (final_scope (argument (scope self) (arg_dict_of cx self)))
                 - dom (arg_dict_of cx self)
    \<and> (\<forall>k. k \<in> dom (arg_dict_of cx self) \<longrightarrow> used k = None)
    \<and> (\<forall>k. k \<notin> dom (arg_dict_of cx self) \<longrightarrow>
           used k = final_scope (argument (scope self) (arg_dict_of cx self)) k)
    \<and> (retain self \<longrightarrow> retained self' = used \<and> scope self' = used)
    \<and> (\<not> retain self \<longrightarrow> retained self' = retained self \<and> scope self' = new_Scope)"
proof -
  let ?run = "argument (scope self) (arg_dict_of cx self)"
  let ?used = "clear_intersection (final_scope ?run) (arg_dict_of cx self)"
  have eff: "how = ended ?run \<and> used = ?used \<and> retain self' = retain self
      \<and> retained self' = (if retain self then ?used else retained self)"
    using assms jsk_python_effect [of repr cx h argument self]
      jsk_python_inspect_effect [of repr cx h argument self]
    by (elim disjE) (metis prod.inject snd_conv)+
  have d: "dom (arg_dict_of cx self) = insert ''_'' (dom (var_dict cx (SCOPE_PREFIX self)))"
    by (simp add: arg_dict_of_def)
  show ?thesis
    using eff d clear_intersection_frame [of "final_scope ?run" "arg_dict_of cx self"]
    by (simp add: scope_def)
qed


theorem cleanup_frame_witness:
  "fst (snd (jsk_python (\<lambda>v. [])
        \<lparr>guild = True, token = ustr ''mfa.abcdefgh'', var_dict = (\<lambda>p. [p @ ''ctx'' \<mapsto> PyObject 3])\<rparr>
        (0::nat)
        (\<lambda>sc ad. \<lparr>yielded = [PyStr (ustr ''hi'')], final_scope = (sc ++ ad)(''x'' \<mapsto> PyObject 7),
                   ended = Raised\<rparr>)
        (init_Jishaku True ''_''))) = Raised
   \<and> fst (snd (snd (jsk_python (\<lambda>v. [])
        \<lparr>guild = True, token = ustr ''mfa.abcdefgh'', var_dict = (\<lambda>p. [p @ ''ctx'' \<mapsto> PyObject 3])\<rparr>
        (0::nat)
        (\<lambda>sc ad. \<lparr>yielded = [PyStr (ustr ''hi'')], final_scope = (sc ++ ad)(''x'' \<mapsto> PyObject 7),
                   ended = Raised\<rparr>)
        (init_Jishaku True ''_'')))) ''x'' = Some (PyObject 7)
   \<and> fst (snd (snd (jsk_python (\<lambda>v. [])
        \<lparr>guild = True, token = ustr ''mfa.abcdefgh'', var_dict = (\<lambda>p. [p @ ''ctx'' \<mapsto> PyObject 3])\<rparr>
        (0::nat)
        (\<lambda>sc ad. \<lparr>yielded = [PyStr (ustr ''hi'')], final_scope = (sc ++ ad)(''x'' \<mapsto> PyObject 7),
                   ended = Raised\<rparr>)
        (init_Jishaku True ''_'')))) ''_ctx'' = None
   \<and> fst (snd (snd (jsk_python (\<lambda>v. [])
        \<lparr>guild = True, token = ustr ''mfa.abcdefgh'', var_dict = (\<lambda>p. [p @ ''ctx'' \<mapsto> PyObject 3])\<rparr>
        (0::nat)
        (\<lambda>sc ad. \<lparr>yielded = [PyStr (ustr ''hi'')], final_scope = (sc ++ ad)(''x'' \<mapsto> PyObject 7),
                   ended = Raised\<rparr>)
        (init_Jishaku True ''_'')))) ''_'' = None"
proof -
  let ?cx = "\<lparr>guild = True, token = ustr ''mfa.abcdefgh'',
              var_dict = (\<lambda>p. [p @ ''ctx'' \<mapsto> PyObject 3])\<rparr>"
  let ?prog = "\<lambda>sc ad. \<lparr>yielded = [PyStr (ustr ''hi'')],
                 final_scope = (sc ++ ad)(''x'' \<mapsto> PyObject 7), ended = Raised\<rparr>"
  let ?self = "init_Jishaku True ''_'' :: nat Jishaku"
  let ?J = "jsk_python (\<lambda>v. []) ?cx (0::nat) ?prog ?self"
  have run: "?J = (fst ?J, fst (snd ?J), fst (snd (snd ?J)), snd (snd (snd ?J)))
             \<or> jsk_python_inspect (\<lambda>v. []) ?cx (0::nat) ?prog ?self
                = ([], fst (snd ?J), fst (snd (snd ?J)), snd (snd (snd ?J)))"
    by simp
  have dom_ad: "dom (arg_dict_of ?cx ?self) = {''_'', ''_ctx''}"
    by (auto simp: arg_dict_of_def init_Jishaku_def)
  note frame = cleanup_frame [OF run]
  have how: "fst (snd ?J) = Raised"
    using frame by simp
  have a: "fst (snd (snd ?J)) ''x'' = Some (PyObject 7)"
    using frame unfolding dom_ad by simp
  have b: "fst (snd (snd ?J)) ''_ctx'' = None" and c: "fst (snd (snd ?J)) ''_'' = None"
    using frame unfolding dom_ad by simp_all
  from how a b c show ?thesis by (intro conjI)
qed

lemma repl_run_Cons:
  "repl_run repr (c # cs) self =
     (fst (repl_step repr c self) # fst (repl_run repr cs (snd (repl_step repr c self))),
      snd (repl_run repr cs (snd (repl_step repr c self))))"
  by (simp split: prod.splits)

lemma repl_run_append:
  "snd (repl_run repr (xs @ ys) self) = snd (repl_run repr ys (snd (repl_run repr xs self)))"
proof (induction xs arbitrary: self)
  case Nil show ?case by simp
next
  case (Cons x xs)
  show ?case by (simp only: append_Cons repl_run_Cons snd_conv Cons.IH)
qed

lemma jsk_retain_state:
  "snd (jsk_retain g self) =
     (if g = Some True \<and> \<not> retain self then self\<lparr>retain := True, retained := new_Scope\<rparr>
      else if g = Some False \<and> retain self then self\<lparr>retain := False\<rparr>
      else self)"
proof (cases g)
  case None
  then show ?thesis by (simp add: jsk_retain_def)
next
  case (Some b)
  then show ?thesis by (cases b) (simp_all add: jsk_retain_def)
qed

lemma retain_step_state:
  "snd (repl_step repr (Retain g) self) = snd (jsk_retain g self)"
  by (simp split: prod.splits)

lemma retain_stays_on:
  "retain self \<Longrightarrow> Some False \<notin> set gap \<Longrightarrow> snd (repl_run repr (map Retain gap) self) = self"
proof (induction gap)
  case Nil show ?case by simp
next
  case (Cons g gap)
  have "snd (repl_step repr (Retain g) self) = self"
    using Cons.prems by (auto simp add: retain_step_state jsk_retain_state simp del: repl_step.simps)
  then show ?case using Cons by (simp add: repl_run_Cons del: repl_run.simps)
qed

lemma retain_step_empty:
  "scope self = new_Scope \<Longrightarrow> scope (snd (repl_step repr (Retain g) self)) = new_Scope"
  by (auto simp add: retain_step_state jsk_retain_state scope_def simp del: repl_step.simps
      split: if_splits)

lemma retain_stays_empty:
  "scope self = new_Scope \<Longrightarrow> scope (snd (repl_run repr (map Retain gap) self)) = new_Scope"
proof (induction gap arbitrary: self)
  case Nil then show ?case by simp
next
  case (Cons g gap)
  have "scope (snd (repl_step repr (Retain g) self)) = new_Scope"
    using Cons.prems by (rule retain_step_empty)
  then have "scope (snd (repl_run repr (map Retain gap) (snd (repl_step repr (Retain g) self))))
      = new_Scope"
    by (rule Cons.IH)
  then show ?case by (simp add: repl_run_Cons del: repl_run.simps)
qed

lemma retain_switched_off:
  assumes "Some False \<in> set gap"
  shows "scope (snd (repl_run repr (map Retain gap) self)) = new_Scope"
proof -
  from assms obtain a b where gap: "gap = a @ Some False # b"
    by (auto simp: in_set_conv_decomp)
  let ?s1 = "snd (repl_run repr (map Retain a) self)"
  have "scope (snd (repl_step repr (Retain (Some False)) ?s1)) = new_Scope"
    by (auto simp add: retain_step_state jsk_retain_state scope_def simp del: repl_step.simps
      split: if_splits)
  then have "scope (snd (repl_run repr (map Retain b)
      (snd (repl_step repr (Retain (Some False)) ?s1)))) = new_Scope"
    by (rule retain_stays_empty)
  then show ?thesis
    by (simp add: gap repl_run_append repl_run_Cons del: repl_run.simps)
qed

lemma py_step_state:
  "snd (repl_step repr (Py cx h argument) self)
     = snd (snd (snd (jsk_python repr cx h argument self)))"
  "snd (repl_step repr (Py_inspect cx h argument) self)
     = snd (snd (snd (jsk_python_inspect repr cx h argument self)))"
  by (simp_all split: prod.splits)

lemma invocation_then_scope:
  assumes "c = Py cx h argument \<or> c = Py_inspect cx h argument"
  shows "retain (snd (repl_step repr c self)) = retain self
    \<and> (retain self \<longrightarrow> scope (snd (repl_step repr c self)) =
          clear_intersection (final_scope (argument (scope self) (arg_dict_of cx self)))
            (arg_dict_of cx self))"
  using assms jsk_python_effect [of repr cx h argument self]
    jsk_python_inspect_effect [of repr cx h argument self]
  by (auto simp add: py_step_state scope_def simp del: repl_step.simps)

lemma hidden_step:
  assumes off: "\<not> retain self"
  shows "fst (repl_step repr c (self\<lparr>retained := m\<rparr>)) = fst (repl_step repr c self)
    \<and> (snd (repl_step repr c (self\<lparr>retained := m\<rparr>)) = snd (repl_step repr c self)
        \<or> (\<not> retain (snd (repl_step repr c self))
            \<and> snd (repl_step repr c (self\<lparr>retained := m\<rparr>))
                = (snd (repl_step repr c self))\<lparr>retained := m\<rparr>))"
proof (cases c)
  case (Retain g)
  show ?thesis
  proof (cases g)
    case None
    then show ?thesis using off Retain by (simp add: jsk_retain_def)
  next
    case (Some b)
    then show ?thesis using off Retain by (cases b) (simp_all add: jsk_retain_def)
  qed
next
  case (Py cx h argument)
  then show ?thesis
    using off
    by (simp add: jsk_python_def scope_def arg_dict_of_def submit_enter_def submit_exit_def
        Let_def)
next
  case (Py_inspect cx h argument)
  then show ?thesis
    using off
    by (simp add: jsk_python_inspect_def scope_def arg_dict_of_def submit_enter_def
        submit_exit_def Let_def)
qed

lemma hidden_run:
  "\<not> retain self \<Longrightarrow>
     fst (repl_run repr cs (self\<lparr>retained := m\<rparr>)) = fst (repl_run repr cs self)
     \<and> scope (snd (repl_run repr cs (self\<lparr>retained := m\<rparr>)))
         = scope (snd (repl_run repr cs self))"
proof (induction cs arbitrary: self)
  case Nil
  then show ?case by (simp add: scope_def)
next
  case (Cons c cs)
  let ?a = "repl_step repr c (self\<lparr>retained := m\<rparr>)"
  let ?b = "repl_step repr c self"
  have out: "fst ?a = fst ?b"
    and st: "snd ?a = snd ?b \<or> (\<not> retain (snd ?b) \<and> snd ?a = (snd ?b)\<lparr>retained := m\<rparr>)"
    using hidden_step [OF Cons.prems, of repr c m] by blast+
  from st have "fst (repl_run repr cs (snd ?a)) = fst (repl_run repr cs (snd ?b))
      \<and> scope (snd (repl_run repr cs (snd ?a))) = scope (snd (repl_run repr cs (snd ?b)))"
  proof
    assume "snd ?a = snd ?b"
    then show ?thesis by simp
  next
    assume h: "\<not> retain (snd ?b) \<and> snd ?a = (snd ?b)\<lparr>retained := m\<rparr>"
    then show ?thesis using Cons.IH [of "snd ?b"] by simp
  qed
  then show ?case using out by (simp only: repl_run_Cons fst_conv snd_conv)
qed

text \<open>
  Claim C1, as amended. A binding that an invocation leaves in the scope it used is
  visible to the next invocation, whatever \<^verbatim>\<open>jsk retain\<close> commands \<open>gap\<close> come
  between the two, if and only if retention was on at the first invocation and none of
  those commands switched it off. The scope property is the retained scope when
  retention is on and a new empty scope otherwise. Once \<^verbatim>\<open>jsk retain off\<close> has
  switched retention off, what any later sequence of commands sends and the scope any
  later invocation is handed do not depend on what had been retained.
\<close>

theorem retention_visibility:
  assumes inv: "c = Py cx h argument \<or> c = Py_inspect cx h argument"
    and bound: "clear_intersection (final_scope (argument (scope self) (arg_dict_of cx self)))
                  (arg_dict_of cx self) k = Some v"
  shows "(scope (snd (repl_run repr (c # map Retain gap) self)) k = Some v
            \<longleftrightarrow> retain self \<and> Some False \<notin> set gap)
    \<and> scope self = (if retain self then retained self else new_Scope)
    \<and> (retain self \<longrightarrow>
          \<not> retain (snd (jsk_retain (Some False) self))
          \<and> scope (snd (jsk_retain (Some False) self)) = new_Scope
          \<and> fst (repl_run repr cmds ((snd (jsk_retain (Some False) self))\<lparr>retained := m\<rparr>))
              = fst (repl_run repr cmds (snd (jsk_retain (Some False) self)))
          \<and> scope (snd (repl_run repr cmds
                ((snd (jsk_retain (Some False) self))\<lparr>retained := m\<rparr>)))
              = scope (snd (repl_run repr cmds (snd (jsk_retain (Some False) self)))))"
proof -
  let ?s1 = "snd (repl_step repr c self)"
  let ?used = "clear_intersection (final_scope (argument (scope self) (arg_dict_of cx self)))
                 (arg_dict_of cx self)"
  have run: "snd (repl_run repr (c # map Retain gap) self)
      = snd (repl_run repr (map Retain gap) ?s1)"
    by (simp only: repl_run_Cons snd_conv)
  have r1: "retain ?s1 = retain self"
    and sc1: "retain self \<Longrightarrow> scope ?s1 = ?used"
    using invocation_then_scope [OF inv, of repr self] by blast+
  have vis: "scope (snd (repl_run repr (map Retain gap) ?s1)) k = Some v
      \<longleftrightarrow> retain self \<and> Some False \<notin> set gap"
  proof (cases "retain self \<and> Some False \<notin> set gap")
    case True
    then have "snd (repl_run repr (map Retain gap) ?s1) = ?s1"
      using r1 by (intro retain_stays_on) simp_all
    then show ?thesis using True sc1 bound by simp
  next
    case False
    have "scope (snd (repl_run repr (map Retain gap) ?s1)) = new_Scope"
    proof (cases "retain self")
      case True
      then have "Some False \<in> set gap" using False by simp
      then show ?thesis by (rule retain_switched_off)
    next
      case False
      then have "scope ?s1 = new_Scope" using r1 by (simp add: scope_def)
      then show ?thesis by (rule retain_stays_empty)
    qed
    then show ?thesis using False by (simp add: new_Scope_def)
  qed
  have sprop: "scope self = (if retain self then retained self else new_Scope)"
    by (rule scope_def)
  let ?off = "snd (jsk_retain (Some False) self)"
  have off: "\<not> retain ?off \<and> scope ?off = new_Scope
      \<and> fst (repl_run repr cmds (?off\<lparr>retained := m\<rparr>)) = fst (repl_run repr cmds ?off)
      \<and> scope (snd (repl_run repr cmds (?off\<lparr>retained := m\<rparr>)))
          = scope (snd (repl_run repr cmds ?off))"
    if "retain self"
  proof -
    have n: "\<not> retain ?off" using that by (simp add: jsk_retain_state)
    then have "scope ?off = new_Scope" by (simp add: scope_def)
    with n hidden_run [OF n, of repr cmds m] show ?thesis by simp
  qed
  show ?thesis using vis sprop off unfolding run by blast
qed

theorem retention_visibility_witness:
  "scope (snd (repl_run (\<lambda>v. [])
      [Py \<lparr>guild = True, token = ustr ''mfa.abcdefgh'', var_dict = (\<lambda>p. [p @ ''ctx'' \<mapsto> PyObject 3])\<rparr>
          (0::nat)
          (\<lambda>sc ad. \<lparr>yielded = [], final_scope = (sc ++ ad)(''x'' \<mapsto> PyObject 7), ended = Completed\<rparr>),
       Retain None, Retain (Some True)]
      (init_Jishaku True ''_''))) ''x'' = Some (PyObject 7)
   \<and> scope (snd (repl_run (\<lambda>v. [])
      [Py \<lparr>guild = True, token = ustr ''mfa.abcdefgh'', var_dict = (\<lambda>p. [p @ ''ctx'' \<mapsto> PyObject 3])\<rparr>
          (0::nat)
          (\<lambda>sc ad. \<lparr>yielded = [], final_scope = (sc ++ ad)(''x'' \<mapsto> PyObject 7), ended = Completed\<rparr>),
       Retain None, Retain (Some True)]
      (init_Jishaku False ''_''))) ''x'' \<noteq> Some (PyObject 7)
   \<and> scope (snd (repl_run (\<lambda>v. [])
        [Py \<lparr>guild = True, token = ustr ''mfa.abcdefgh'', var_dict = (\<lambda>p. Map.empty)\<rparr> (1::nat)
          (\<lambda>sc ad. \<lparr>yielded = [], final_scope = sc ++ ad, ended = Completed\<rparr>)]
        ((snd (jsk_retain (Some False) (init_Jishaku True ''_'')))
           \<lparr>retained := [''secret'' \<mapsto> PyObject 9]\<rparr>)))
     = scope (snd (repl_run (\<lambda>v. [])
        [Py \<lparr>guild = True, token = ustr ''mfa.abcdefgh'', var_dict = (\<lambda>p. Map.empty)\<rparr> (1::nat)
          (\<lambda>sc ad. \<lparr>yielded = [], final_scope = sc ++ ad, ended = Completed\<rparr>)]
        (snd (jsk_retain (Some False) (init_Jishaku True ''_'')))))"
proof -
  let ?cx = "\<lparr>guild = True, token = ustr ''mfa.abcdefgh'',
              var_dict = (\<lambda>p. [p @ ''ctx'' \<mapsto> PyObject 3])\<rparr>"
  let ?prog = "\<lambda>sc ad. \<lparr>yielded = [], final_scope = (sc ++ ad)(''x'' \<mapsto> PyObject 7),
                 ended = Completed\<rparr>"
  let ?cx2 = "\<lparr>guild = True, token = ustr ''mfa.abcdefgh'', var_dict = (\<lambda>p. Map.empty)\<rparr>"
  let ?prog2 = "\<lambda>sc ad. \<lparr>yielded = [], final_scope = sc ++ ad, ended = Completed\<rparr>"
  let ?on = "init_Jishaku True ''_'' :: nat Jishaku"
  let ?no = "init_Jishaku False ''_'' :: nat Jishaku"
  have inv: "Py ?cx (0::nat) ?prog = Py ?cx 0 ?prog \<or> Py ?cx (0::nat) ?prog = Py_inspect ?cx 0 ?prog"
    by simp
  have b1: "clear_intersection (final_scope (?prog (scope ?on) (arg_dict_of ?cx ?on)))
      (arg_dict_of ?cx ?on) ''x'' = Some (PyObject 7)"
    by (simp add: clear_intersection_def arg_dict_of_def init_Jishaku_def)
  have b2: "clear_intersection (final_scope (?prog (scope ?no) (arg_dict_of ?cx ?no)))
      (arg_dict_of ?cx ?no) ''x'' = Some (PyObject 7)"
    by (simp add: clear_intersection_def arg_dict_of_def init_Jishaku_def)
  have r1: "retain ?on" and r2: "\<not> retain ?no" by (simp_all add: init_Jishaku_def)
  have a: "scope (snd (repl_run (\<lambda>v. []) [Py ?cx 0 ?prog, Retain None, Retain (Some True)] ?on))
      ''x'' = Some (PyObject 7)"
    using retention_visibility [OF inv b1, of "\<lambda>v. []" "[None, Some True]"] r1
    by (simp del: repl_run.simps)
  have b: "scope (snd (repl_run (\<lambda>v. []) [Py ?cx 0 ?prog, Retain None, Retain (Some True)] ?no))
      ''x'' \<noteq> Some (PyObject 7)"
    using retention_visibility [OF inv b2, of "\<lambda>v. []" "[None, Some True]"] r2
    by (simp del: repl_run.simps)
  have c: "scope (snd (repl_run (\<lambda>v. []) [Py ?cx2 (1::nat) ?prog2]
        ((snd (jsk_retain (Some False) ?on))\<lparr>retained := [''secret'' \<mapsto> PyObject 9]\<rparr>)))
     = scope (snd (repl_run (\<lambda>v. []) [Py ?cx2 (1::nat) ?prog2]
        (snd (jsk_retain (Some False) ?on))))"
    using retention_visibility [OF inv b1, of "\<lambda>v. []" "[]" "[Py ?cx2 (1::nat) ?prog2]"
        "[''secret'' \<mapsto> PyObject 9]"] r1
    by blast
  from a b c show ?thesis by (intro conjI)
qed

text \<open>
  Claim C1 as first stated asks for visibility whenever retention is on at both
  invocations. It fails when retention is switched off and on again in between: the
  binding \<^verbatim>\<open>x\<close> was retained, retention is on at both times, and the second
  invocation does not see it, since switching retention on starts a new scope.
\<close>

theorem retention_both_times_counterexample:
  "retain (init_Jishaku True ''_'' :: nat Jishaku)
   \<and> retained (snd (repl_run (\<lambda>v. [])
      [Py \<lparr>guild = True, token = ustr ''mfa.abcdefgh'', var_dict = (\<lambda>p. [p @ ''ctx'' \<mapsto> PyObject 3])\<rparr>
          (0::nat)
          (\<lambda>sc ad. \<lparr>yielded = [], final_scope = (sc ++ ad)(''x'' \<mapsto> PyObject 7), ended = Completed\<rparr>)]
      (init_Jishaku True ''_''))) ''x'' = Some (PyObject 7)
   \<and> retain (snd (repl_run (\<lambda>v. [])
      [Py \<lparr>guild = True, token = ustr ''mfa.abcdefgh'', var_dict = (\<lambda>p. [p @ ''ctx'' \<mapsto> PyObject 3])\<rparr>
          (0::nat)
          (\<lambda>sc ad. \<lparr>yielded = [], final_scope = (sc ++ ad)(''x'' \<mapsto> PyObject 7), ended = Completed\<rparr>),
       Retain (Some False), Retain (Some True)]
      (init_Jishaku True ''_'')))
   \<and> scope (snd (repl_run (\<lambda>v. [])
      [Py \<lparr>guild = True, token = ustr ''mfa.abcdefgh'', var_dict = (\<lambda>p. [p @ ''ctx'' \<mapsto> PyObject 3])\<rparr>
          (0::nat)
          (\<lambda>sc ad. \<lparr>yielded = [], final_scope = (sc ++ ad)(''x'' \<mapsto> PyObject 7), ended = Completed\<rparr>),
       Retain (Some False), Retain (Some True)]
      (init_Jishaku True ''_''))) ''x'' = None"
  by (simp add: init_Jishaku_def jsk_python_def jsk_retain_def scope_def new_Scope_def
      arg_dict_of_def clear_intersection_def submit_enter_def submit_exit_def Let_def last_of_def)


section \<open>Properties of the paginators\<close>









end
